theory Spec2Isabelle
  imports Main "HOL-Library.Word"
begin

unbundle bit_operations_syntax

section \<open>Constants of application.py\<close>

type_synonym byte = "8 word"

definition HEADER_SIZE :: nat where
  "HEADER_SIZE = 6"

definition MAX_DATA_SIZE :: int where
  "MAX_DATA_SIZE = 994"

text \<open>The flag values \<^verbatim>\<open>1 << 0\<close>, \<^verbatim>\<open>1 << 1\<close> and \<^verbatim>\<open>1 << 2\<close>.\<close>

definition SYN_FLAG :: int where
  "SYN_FLAG = push_bit 0 1"

definition ACK_FLAG :: int where
  "ACK_FLAG = push_bit 1 1"

definition FIN_FLAG :: int where
  "FIN_FLAG = push_bit 2 1"

section \<open>Errors\<close>

text \<open>
  The exceptions the modelled code can raise and does not catch: \<^verbatim>\<open>struct.error\<close> from
  \<^verbatim>\<open>struct.pack\<close> (a field outside 0..65535) and from \<^verbatim>\<open>struct.unpack\<close> (a header that
  is not 6 bytes long), and \<^verbatim>\<open>KeyError\<close> from \<^verbatim>\<open>set.remove\<close> of an absent element.
\<close>

datatype error = StructError | KeyError

section \<open>Packet codec\<close>

text \<open>One \<^verbatim>\<open>H\<close> field of the format \<^verbatim>\<open>!HHH\<close>: an unsigned 16-bit integer, big-endian.\<close>

definition fits_H :: "int \<Rightarrow> bool" where
  "fits_H v = (0 \<le> v \<and> v \<le> 65535)"

definition pack_H :: "int \<Rightarrow> byte list" where
  "pack_H v = [word_of_int (v div 256), word_of_int (v mod 256)]"

definition unpack_H :: "byte \<Rightarrow> byte \<Rightarrow> int" where
  "unpack_H hi lo = uint hi * 256 + uint lo"

text \<open>
  \<^verbatim>\<open>create_packet(seq, ack_num, flags, data)\<close>: \<^verbatim>\<open>struct.pack('!HHH', ...)\<close> raises
  \<^verbatim>\<open>struct.error\<close> when a field does not fit 16 bits; otherwise header followed by data.
\<close>

definition create_packet :: "int \<Rightarrow> int \<Rightarrow> int \<Rightarrow> byte list \<Rightarrow> error + byte list" where
  "create_packet seq ack_num flags data =
     (if fits_H seq \<and> fits_H ack_num \<and> fits_H flags
      then Inr (pack_H seq @ pack_H ack_num @ pack_H flags @ data)
      else Inl StructError)"

text \<open>
  \<^verbatim>\<open>parse_packet(packet)\<close>: the header is \<^verbatim>\<open>packet[:6]\<close>; \<^verbatim>\<open>struct.unpack('!HHH', header)\<close>
  raises \<^verbatim>\<open>struct.error\<close> unless the header has exactly 6 bytes; data is \<^verbatim>\<open>packet[6:]\<close>.
\<close>

definition parse_packet :: "byte list \<Rightarrow> error + (int \<times> int \<times> int \<times> byte list)" where
  "parse_packet packet =
     (case take HEADER_SIZE packet of
        [s1, s0, a1, a0, f1, f0] \<Rightarrow>
          Inr (unpack_H s1 s0, unpack_H a1 a0, unpack_H f1 f0, drop HEADER_SIZE packet)
      | _ \<Rightarrow> Inl StructError)"

text \<open>\<^verbatim>\<open>is_flag_set(flags, flag)\<close> is \<^verbatim>\<open>(flags & flag) != 0\<close> on Python integers.\<close>

definition is_flag_set :: "int \<Rightarrow> int \<Rightarrow> bool" where
  "is_flag_set flags flag = ((flags AND flag) \<noteq> 0)"

section \<open>Python slices\<close>

text \<open>
  \<^verbatim>\<open>xs[i:j]\<close>: a negative bound counts from the end, and both bounds are clamped to
  \<^verbatim>\<open>0..len(xs)\<close>; the slice is empty when the start is not before the stop.
\<close>

definition py_bound :: "nat \<Rightarrow> int \<Rightarrow> nat" where
  "py_bound n i = (if i < 0 then nat (max (i + int n) 0) else min (nat i) n)"

definition py_slice :: "'a list \<Rightarrow> int \<Rightarrow> int \<Rightarrow> 'a list" where
  "py_slice xs i j =
     (let a = py_bound (length xs) i; b = py_bound (length xs) j
      in take (b - a) (drop a xs))"

section \<open>Sender: the state of \<^verbatim>\<open>run_client\<close>\<close>

text \<open>
  The variables \<^verbatim>\<open>base\<close>, \<^verbatim>\<open>next_seq\<close> and \<^verbatim>\<open>window\<close> that the nested functions of
  \<^verbatim>\<open>run_client\<close> share, and the datagrams handed to \<^verbatim>\<open>sock.sendto\<close> so far, oldest first.
  \<^verbatim>\<open>file_data\<close> (here \<open>fdata\<close>) and \<^verbatim>\<open>window_size\<close> never change and are parameters.
\<close>

record client =
  base :: int
  next_seq :: int
  window :: "int set"
  sent :: "byte list list"

text \<open>A step either completes or raises an exception that nothing catches; both carry the state.\<close>

datatype 'a result = Ok 'a | Raised error 'a

definition total_packets :: "byte list \<Rightarrow> int" where
  "total_packets fdata = (int (length fdata) + MAX_DATA_SIZE - 1) div MAX_DATA_SIZE"

definition send_packet :: "byte list \<Rightarrow> client \<Rightarrow> client" where
  "send_packet packet c = c\<lparr>sent := sent c @ [packet]\<rparr>"

text \<open>
  \<^verbatim>\<open>send_window()\<close>: the \<^verbatim>\<open>while\<close> loop, one iteration per unfolding. The first
  \<^verbatim>\<open>if\<close> (``skip seq = 0'') adds \<^verbatim>\<open>next_seq\<close> to the window and increments it; the
  packet then carries sequence number \<^verbatim>\<open>next_seq-1\<close> and the slice
  \<^verbatim>\<open>file_data[(next_seq-1)*MAX_DATA_SIZE : next_seq*MAX_DATA_SIZE]\<close>.
\<close>

function send_window :: "byte list \<Rightarrow> int \<Rightarrow> client \<Rightarrow> client result" where
  "send_window fdata window_size c =
     (if next_seq c \<le> base c + window_size \<and> next_seq c \<le> total_packets fdata then
        (let c1 = (if next_seq c - 1 < 1
                   then c\<lparr>window := insert (next_seq c) (window c), next_seq := next_seq c + 1\<rparr>
                   else c);
             data = py_slice fdata ((next_seq c1 - 1) * MAX_DATA_SIZE) (next_seq c1 * MAX_DATA_SIZE)
         in case create_packet (next_seq c1 - 1) 0 0 data of
              Inl e \<Rightarrow> Raised e c1
            | Inr packet \<Rightarrow>
                send_window fdata window_size
                  ((send_packet packet c1)
                     \<lparr>window := insert (next_seq c1) (window c1), next_seq := next_seq c1 + 1\<rparr>))
      else Ok c)"
  by pat_completeness auto
termination
  by (relation "measure (\<lambda>(fdata, window_size, c). nat (total_packets fdata + 1 - next_seq c))")
     (auto simp: send_packet_def Let_def split: if_splits)

declare send_window.simps [simp del]

text \<open>
  \<^verbatim>\<open>retransmit_packets()\<close>: \<^verbatim>\<open>for seq in range(base, next_seq-1)\<close>, each packet with
  the slice \<^verbatim>\<open>file_data[(seq-1)*MAX_DATA_SIZE : seq*MAX_DATA_SIZE]\<close>.
\<close>

fun retransmit_seqs :: "byte list \<Rightarrow> int list \<Rightarrow> client \<Rightarrow> client result" where
  "retransmit_seqs fdata [] c = Ok c"
| "retransmit_seqs fdata (seq # seqs) c =
     (let data = py_slice fdata ((seq - 1) * MAX_DATA_SIZE) (seq * MAX_DATA_SIZE)
      in case create_packet seq 0 0 data of
           Inl e \<Rightarrow> Raised e c
         | Inr packet \<Rightarrow> retransmit_seqs fdata seqs (send_packet packet c))"

definition retransmit_packets :: "byte list \<Rightarrow> client \<Rightarrow> client result" where
  "retransmit_packets fdata c = retransmit_seqs fdata [base c .. next_seq c - 2] c"

text \<open>
  The loop \<^verbatim>\<open>while base <= ack_num: window.remove(base); base += 1\<close>;
  \<^verbatim>\<open>set.remove\<close> raises \<^verbatim>\<open>KeyError\<close> when the element is absent.
\<close>

function slide_window :: "int \<Rightarrow> client \<Rightarrow> client result" where
  "slide_window ack_num c =
     (if base c \<le> ack_num then
        (if base c \<in> window c
         then slide_window ack_num (c\<lparr>window := window c - {base c}, base := base c + 1\<rparr>)
         else Raised KeyError c)
      else Ok c)"
  by pat_completeness auto
termination
  by (relation "measure (\<lambda>(ack_num, c). nat (ack_num + 1 - base c))") auto

declare slide_window.simps [simp del]

section \<open>Sender: what the socket delivers\<close>

text \<open>
  One entry per attempt to receive. \<open>Datagram p\<close>: \<^verbatim>\<open>sock.recvfrom(PACKET_SIZE)\<close>
  returned \<open>p\<close>. \<open>Timeout\<close>: the attempt ended without a datagram, which is
  \<^verbatim>\<open>socket.timeout\<close>; in the acknowledgement loop it also stands for the guard
  \<^verbatim>\<open>time.time() - start_time < TIMEOUT_INTERVAL\<close> being false, since both leave that loop
  the same way. The clock itself is not modelled. An empty list means the engine is still
  waiting in \<^verbatim>\<open>recvfrom\<close>.
\<close>

datatype event = Timeout | Datagram "byte list"

text \<open>
  The body of the acknowledgement loop once a datagram has arrived (lines 299 to 306):
  parse it, and if it carries ACK with \<^verbatim>\<open>ack_num >= base\<close>, slide and call
  \<^verbatim>\<open>send_window()\<close>.
\<close>

definition receive_ack :: "byte list \<Rightarrow> int \<Rightarrow> client \<Rightarrow> byte list \<Rightarrow> client result" where
  "receive_ack fdata window_size c packet =
     (case parse_packet packet of
        Inl e \<Rightarrow> Raised e c
      | Inr (_, ack_num, flags, _) \<Rightarrow>
          if is_flag_set flags ACK_FLAG \<and> ack_num \<ge> base c then
            (case slide_window ack_num c of
               Raised e c' \<Rightarrow> Raised e c'
             | Ok c1 \<Rightarrow> send_window fdata window_size c1)
          else Ok c)"

text \<open>The loop \<^verbatim>\<open>while time.time() - start_time < TIMEOUT_INTERVAL\<close> around it.\<close>

datatype listened =
    Listening client
  | TimedOut client "event list"
  | Interrupted error client

fun listen_acks :: "byte list \<Rightarrow> int \<Rightarrow> client \<Rightarrow> event list \<Rightarrow> listened" where
  "listen_acks fdata window_size c [] = Listening c"
| "listen_acks fdata window_size c (Timeout # es) = TimedOut c es"
| "listen_acks fdata window_size c (Datagram packet # es) =
     (case receive_ack fdata window_size c packet of
        Raised e c' \<Rightarrow> Interrupted e c'
      | Ok c' \<Rightarrow> listen_acks fdata window_size c' es)"

lemma listen_acks_shorter:
  "listen_acks fdata window_size c es = TimedOut c' es' \<Longrightarrow> length es' < length es"
  by (induction fdata window_size c es rule: listen_acks.induct)
     (auto split: result.splits)

section \<open>Sender: \<^verbatim>\<open>run_client\<close>\<close>

text \<open>
  How a run over a finite list of events ends: \<open>Waiting\<close> in \<^verbatim>\<open>recvfrom\<close> when the
  events are used up, \<open>Failed\<close> by \<^verbatim>\<open>exit()\<close> after the handshake timeout, \<open>Crashed\<close>
  by an uncaught exception, or \<open>Closed\<close> after FIN-ACK.
\<close>

datatype outcome =
    Waiting client
  | Failed client
  | Crashed error client
  | Closed client

text \<open>The teardown: send FIN, then wait for a reply that passes the FIN|ACK test, resending on timeout.\<close>

fun fin_wait :: "byte list \<Rightarrow> client \<Rightarrow> event list \<Rightarrow> outcome" where
  "fin_wait fin_packet c [] = Waiting c"
| "fin_wait fin_packet c (Timeout # es) = fin_wait fin_packet (send_packet fin_packet c) es"
| "fin_wait fin_packet c (Datagram packet # es) =
     (case parse_packet packet of
        Inl e \<Rightarrow> Crashed e c
      | Inr (_, _, flags, _) \<Rightarrow>
          if is_flag_set flags (FIN_FLAG OR ACK_FLAG) then Closed c
          else fin_wait fin_packet c es)"

definition teardown :: "client \<Rightarrow> event list \<Rightarrow> outcome" where
  "teardown c es =
     (case create_packet 0 0 FIN_FLAG [] of
        Inl e \<Rightarrow> Crashed e c
      | Inr fin_packet \<Rightarrow> fin_wait fin_packet (send_packet fin_packet c) es)"

text \<open>
  The data transfer loop \<^verbatim>\<open>while base < total_packets\<close> (lines 292 to 313), followed by
  the teardown when the loop is left: a round is \<^verbatim>\<open>send_window()\<close>, the acknowledgement
  loop, and \<^verbatim>\<open>retransmit_packets()\<close>, which line 313 calls after every round.
\<close>

function data_transfer :: "byte list \<Rightarrow> int \<Rightarrow> client \<Rightarrow> event list \<Rightarrow> outcome" where
  "data_transfer fdata window_size c es =
     (if base c < total_packets fdata then
        (case send_window fdata window_size c of
           Raised e c' \<Rightarrow> Crashed e c'
         | Ok c1 \<Rightarrow>
             (case listen_acks fdata window_size c1 es of
                Listening c2 \<Rightarrow> Waiting c2
              | Interrupted e c2 \<Rightarrow> Crashed e c2
              | TimedOut c2 es' \<Rightarrow>
                  (case retransmit_packets fdata c2 of
                     Raised e c3 \<Rightarrow> Crashed e c3
                   | Ok c3 \<Rightarrow> data_transfer fdata window_size c3 es')))
      else teardown c es)"
  by pat_completeness auto
termination
  by (relation "measure (\<lambda>(fdata, window_size, c, es). length es)")
     (auto dest: listen_acks_shorter)

declare data_transfer.simps [simp del]

definition initial_client :: client where
  "initial_client = \<lparr>base = 1, next_seq = 1, window = {}, sent = []\<rparr>"

text \<open>
  \<^verbatim>\<open>run_client\<close> once the file has been read: SYN, one receive (a timeout ends the
  program; a reply that passes the SYN|ACK test is answered by ACK, any other reply is
  ignored), then the data transfer and the teardown.
\<close>

definition run_client :: "byte list \<Rightarrow> int \<Rightarrow> event list \<Rightarrow> outcome" where
  "run_client fdata window_size es =
     (case create_packet 0 0 SYN_FLAG [] of
        Inl e \<Rightarrow> Crashed e initial_client
      | Inr syn_packet \<Rightarrow>
          (let c = send_packet syn_packet initial_client in
           case es of
             [] \<Rightarrow> Waiting c
           | Timeout # _ \<Rightarrow> Failed c
           | Datagram packet # es' \<Rightarrow>
               (case parse_packet packet of
                  Inl e \<Rightarrow> Crashed e c
                | Inr (_, _, flags, _) \<Rightarrow>
                    if is_flag_set flags (SYN_FLAG OR ACK_FLAG) then
                      (case create_packet 0 0 ACK_FLAG [] of
                         Inl e \<Rightarrow> Crashed e c
                       | Inr ack_packet \<Rightarrow>
                           data_transfer fdata window_size (send_packet ack_packet c) es')
                    else data_transfer fdata window_size c es')))"

section \<open>Receiver: \<^verbatim>\<open>run_server\<close>\<close>

text \<open>
  The variables of \<^verbatim>\<open>run_server\<close>: \<^verbatim>\<open>file_data\<close>, \<^verbatim>\<open>expected_seq\<close> and
  \<^verbatim>\<open>discard_seq\<close> (\<open>None\<close> for \<^verbatim>\<open>float('inf')\<close>, which equals no sequence number), and
  the datagrams handed to \<^verbatim>\<open>sock.sendto\<close> so far, oldest first. \<^verbatim>\<open>start_time\<close> and the
  throughput report of the \<^verbatim>\<open>finally\<close> block read the clock and are left out.
\<close>

record server =
  file_data :: "byte list"
  expected_seq :: int
  discard_seq :: "int option"
  replies :: "byte list list"

definition reply :: "byte list \<Rightarrow> server \<Rightarrow> server" where
  "reply packet s = s\<lparr>replies := replies s @ [packet]\<rparr>"

text \<open>
  One pass through the body of \<^verbatim>\<open>while True\<close> with a datagram received (lines 154 to
  191): \<open>Continue\<close> for \<^verbatim>\<open>continue\<close> and for reaching the end of the body, \<open>Break\<close> for
  \<^verbatim>\<open>break\<close>, \<open>Raise\<close> for an exception, which neither \<^verbatim>\<open>except socket.timeout\<close> nor
  \<^verbatim>\<open>except KeyboardInterrupt\<close> catches.
\<close>

datatype step = Continue server | Break server | Raise error server

definition server_receive :: "server \<Rightarrow> byte list \<Rightarrow> step" where
  "server_receive s packet =
     (case parse_packet packet of
        Inl e \<Rightarrow> Raise e s
      | Inr (seq, ack_num, flags, data) \<Rightarrow>
          if is_flag_set flags SYN_FLAG then
            (case create_packet 0 0 (SYN_FLAG OR ACK_FLAG) [] of
               Inl e \<Rightarrow> Raise e s
             | Inr syn_ack_packet \<Rightarrow> Continue (reply syn_ack_packet s))
          else if is_flag_set flags ACK_FLAG then Continue s
          else if is_flag_set flags FIN_FLAG then
            (case create_packet 0 0 (FIN_FLAG OR ACK_FLAG) [] of
               Inl e \<Rightarrow> Raise e s
             | Inr fin_ack_packet \<Rightarrow> Break (reply fin_ack_packet s))
          else if Some seq = discard_seq s then Continue (s\<lparr>discard_seq := None\<rparr>)
          else if seq = expected_seq s then
            (let s1 = s\<lparr>file_data := file_data s @ data\<rparr> in
             case create_packet 0 seq ACK_FLAG [] of
               Inl e \<Rightarrow> Raise e s1
             | Inr ack_packet \<Rightarrow>
                 Continue ((reply ack_packet s1)\<lparr>expected_seq := expected_seq s1 + 1\<rparr>))
          else Continue s)"

text \<open>
  The receive loop over a list of events: \<open>Serving\<close> when the events are used up,
  \<open>Finished\<close> after FIN, \<open>Aborted\<close> by an uncaught exception.
\<close>

datatype served = Serving server | Finished server | Aborted error server

fun serve :: "server \<Rightarrow> event list \<Rightarrow> served" where
  "serve s [] = Serving s"
| "serve s (Timeout # es) = serve s es"
| "serve s (Datagram packet # es) =
     (case server_receive s packet of
        Continue s' \<Rightarrow> serve s' es
      | Break s' \<Rightarrow> Finished s'
      | Raise e s' \<Rightarrow> Aborted e s')"

definition run_server :: "int option \<Rightarrow> event list \<Rightarrow> served" where
  "run_server discard es =
     serve \<lparr>file_data = [], expected_seq = 1, discard_seq = discard, replies = []\<rparr> es"

text \<open>The sender state a run ends in.\<close>

definition final :: "outcome \<Rightarrow> client" where
  "final out = (case out of Waiting c \<Rightarrow> c | Failed c \<Rightarrow> c | Crashed e c \<Rightarrow> c | Closed c \<Rightarrow> c)"

text \<open>The sender state a step or a wait ends in.\<close>

definition result_state :: "'a result \<Rightarrow> 'a" where
  "result_state r = (case r of Ok c \<Rightarrow> c | Raised e c \<Rightarrow> c)"

definition listened_state :: "listened \<Rightarrow> client" where
  "listened_state l = (case l of Listening c \<Rightarrow> c | TimedOut c es \<Rightarrow> c | Interrupted e c \<Rightarrow> c)"

text \<open>
  The sequence number of a datagram if it is a data packet as the client builds them,
  with flags 0 (lines 246 and 264); SYN, ACK and FIN carry a flag. \<open>data_seqs\<close> are the
  sequence numbers of the data packets sent so far, and \<open>in_flight\<close> those of them not
  below \<^verbatim>\<open>base\<close>: transmitted and not yet acknowledged.
\<close>

definition data_seq :: "byte list \<Rightarrow> int option" where
  "data_seq packet =
     (case parse_packet packet of
        Inl e \<Rightarrow> None
      | Inr (seq, ack_num, flags, data) \<Rightarrow> if flags = 0 then Some seq else None)"

definition data_seqs :: "client \<Rightarrow> int list" where
  "data_seqs c = List.map_filter data_seq (sent c)"

definition in_flight :: "client \<Rightarrow> int list" where
  "in_flight c = filter (\<lambda>seq. base c \<le> seq) (data_seqs c)"

definition sender_inv :: "int \<Rightarrow> client \<Rightarrow> bool" where
  "sender_inv window_size c =
     (1 \<le> base c \<and> base c \<le> next_seq c
      \<and> next_seq c - base c \<le> max (window_size + 1) 2
      \<and> window c = {base c..<next_seq c}
      \<and> set (data_seqs c) = {1..<next_seq c - 1})"

section \<open>Codec lemmas\<close>

lemma unpack_pack_H:
  assumes "fits_H v"
  shows "unpack_H (word_of_int (v div 256)) (word_of_int (v mod 256)) = v"
proof -
  from assms have r: "0 \<le> v" "v < 65536" by (simp_all add: fits_H_def)
  then have d: "0 \<le> v div 256" "v div 256 < 256" by simp_all
  have hi: "uint (word_of_int (v div 256) :: byte) = v div 256"
    using d by (simp add: uint_word_of_int take_bit_eq_mod)
  have lo: "uint (word_of_int (v mod 256) :: byte) = v mod 256"
    by (simp add: uint_word_of_int take_bit_eq_mod)
  show ?thesis
    unfolding unpack_H_def hi lo by simp
qed

lemma parse_create_packet:
  assumes "fits_H s" "fits_H a" "fits_H f"
  shows "parse_packet (pack_H s @ pack_H a @ pack_H f @ d) = Inr (s, a, f, d)"
  using assms by (simp add: parse_packet_def pack_H_def HEADER_SIZE_def unpack_pack_H)

lemma parse_packet_short:
  assumes "length p < 6"
  shows "parse_packet p = Inl StructError"
proof -
  have "length (take HEADER_SIZE p) < 6"
    using assms by (simp add: HEADER_SIZE_def)
  then show ?thesis
    unfolding parse_packet_def
    by (cases "take HEADER_SIZE p" rule: list.exhaust)
       (auto split: list.splits)
qed

lemma create_packet_fits:
  "fits_H s \<Longrightarrow> fits_H a \<Longrightarrow> fits_H f \<Longrightarrow>
   create_packet s a f d = Inr (pack_H s @ pack_H a @ pack_H f @ d)"
  by (simp add: create_packet_def)

lemma flag_values: "SYN_FLAG = 1" "ACK_FLAG = 2" "FIN_FLAG = 4"
  by (simp_all add: SYN_FLAG_def ACK_FLAG_def FIN_FLAG_def)

lemma is_flag_set_or:
  "is_flag_set flags (m OR n) = (is_flag_set flags m \<or> is_flag_set flags n)"
  by (auto simp: is_flag_set_def bit.conj_disj_distrib or_eq_0_iff)

lemma control_packets:
  "create_packet 0 0 SYN_FLAG [] = Inr [0, 0, 0, 0, 0, 1]"
  "create_packet 0 0 ACK_FLAG [] = Inr [0, 0, 0, 0, 0, 2]"
  "create_packet 0 0 FIN_FLAG [] = Inr [0, 0, 0, 0, 0, 4]"
  "create_packet 0 0 (SYN_FLAG OR ACK_FLAG) [] = Inr [0, 0, 0, 0, 0, 3]"
  "create_packet 0 0 (FIN_FLAG OR ACK_FLAG) [] = Inr [0, 0, 0, 0, 0, 6]"
  by (simp_all add: create_packet_def fits_H_def pack_H_def flag_values)

lemma parse_ack_only: "parse_packet [0, 0, 0, 0, 0, 2] = Inr (0, 0, 2, [])"
  by (simp add: parse_packet_def HEADER_SIZE_def unpack_H_def)

section \<open>C7: encoding and decoding\<close>

text \<open>
  Claim C7. For all \<open>s\<close>, \<open>a\<close>, \<open>f\<close> in 0..65535 and every payload of at most 994 bytes,
  \<^verbatim>\<open>create_packet\<close> succeeds and yields the six header bytes, each field big-endian
  (high byte first), followed by the payload, and \<^verbatim>\<open>parse_packet\<close> of that packet gives
  back \<open>(s, a, f, payload)\<close>.
\<close>

theorem create_parse_roundtrip:
  assumes "0 \<le> s" "s \<le> 65535" "0 \<le> a" "a \<le> 65535" "0 \<le> f" "f \<le> 65535"
    and "length payload \<le> 994"
  shows "create_packet s a f payload =
           Inr ([word_of_int (s div 256), word_of_int (s mod 256),
                 word_of_int (a div 256), word_of_int (a mod 256),
                 word_of_int (f div 256), word_of_int (f mod 256)] @ payload)
         \<and> (case create_packet s a f payload of
               Inl e \<Rightarrow> Inl e
             | Inr packet \<Rightarrow> parse_packet packet) = Inr (s, a, f, payload)"
proof -
  have fits: "fits_H s" "fits_H a" "fits_H f"
    using assms by (simp_all add: fits_H_def)
  have enc: "create_packet s a f payload = Inr (pack_H s @ pack_H a @ pack_H f @ payload)"
    using fits by (rule create_packet_fits)
  have dec: "parse_packet (pack_H s @ pack_H a @ pack_H f @ payload) = Inr (s, a, f, payload)"
    using fits by (rule parse_create_packet)
  show ?thesis
    unfolding enc using dec by (simp add: pack_H_def)
qed

theorem create_parse_roundtrip_witness:
  "create_packet 258 2 3 [7, 9] = Inr [1, 2, 0, 2, 0, 3, 7, 9]
   \<and> (case create_packet 258 2 3 [7, 9] of
         Inl e \<Rightarrow> Inl e
       | Inr packet \<Rightarrow> parse_packet packet) = Inr (258, 2, 3, [7, 9])"
  using create_parse_roundtrip [of 258 2 3 "[7, 9]"] by auto

section \<open>C10: the flag test\<close>

text \<open>
  Claim C10. \<^verbatim>\<open>is_flag_set(flags, flag)\<close> is true exactly when the bitwise AND of the two
  is nonzero. So the tests against the combined masks SYN|ACK (handshake, line 279) and
  FIN|ACK (teardown, line 326) succeed as soon as one of the two flags is set: a packet
  carrying only ACK passes the SYN|ACK test although its SYN bit is clear, the client
  answers it with ACK and starts the data transfer, and in the teardown the same packet
  closes the connection.
\<close>

theorem is_flag_set_any_bit:
  "is_flag_set flags flag = ((flags AND flag) \<noteq> 0)
   \<and> is_flag_set flags (SYN_FLAG OR ACK_FLAG)
       = (is_flag_set flags SYN_FLAG \<or> is_flag_set flags ACK_FLAG)
   \<and> is_flag_set flags (FIN_FLAG OR ACK_FLAG)
       = (is_flag_set flags FIN_FLAG \<or> is_flag_set flags ACK_FLAG)
   \<and> is_flag_set ACK_FLAG (SYN_FLAG OR ACK_FLAG)
   \<and> \<not> is_flag_set ACK_FLAG SYN_FLAG
   \<and> run_client fdata window_size (Datagram [0, 0, 0, 0, 0, 2] # es)
       = data_transfer fdata window_size
           (initial_client\<lparr>sent := [[0, 0, 0, 0, 0, 1], [0, 0, 0, 0, 0, 2]]\<rparr>) es
   \<and> fin_wait fin_packet c (Datagram [0, 0, 0, 0, 0, 2] # es) = Closed c"
proof -
  have a: "is_flag_set ACK_FLAG (SYN_FLAG OR ACK_FLAG)"
    by (simp add: is_flag_set_def flag_values)
  have b: "\<not> is_flag_set ACK_FLAG SYN_FLAG"
    by (simp add: is_flag_set_def flag_values)
  have a2: "is_flag_set 2 (SYN_FLAG OR ACK_FLAG)" "is_flag_set 2 (FIN_FLAG OR ACK_FLAG)"
    by (simp_all add: is_flag_set_def flag_values)
  have r: "run_client fdata window_size (Datagram [0, 0, 0, 0, 0, 2] # es)
       = data_transfer fdata window_size
           (initial_client\<lparr>sent := [[0, 0, 0, 0, 0, 1], [0, 0, 0, 0, 0, 2]]\<rparr>) es"
    by (simp add: run_client_def control_packets parse_ack_only a2 send_packet_def
        initial_client_def)
  have t: "fin_wait fin_packet c (Datagram [0, 0, 0, 0, 0, 2] # es) = Closed c"
    by (simp add: parse_ack_only a2)
  show ?thesis
    using a b r t by (simp add: is_flag_set_or) (simp add: is_flag_set_def)
qed

theorem is_flag_set_any_bit_witness:
  "is_flag_set 2 3 = ((2 AND 3) \<noteq> (0::int))
   \<and> is_flag_set 2 (SYN_FLAG OR ACK_FLAG)
       = (is_flag_set 2 SYN_FLAG \<or> is_flag_set 2 ACK_FLAG)
   \<and> is_flag_set 2 (FIN_FLAG OR ACK_FLAG)
       = (is_flag_set 2 FIN_FLAG \<or> is_flag_set 2 ACK_FLAG)
   \<and> is_flag_set ACK_FLAG (SYN_FLAG OR ACK_FLAG)
   \<and> \<not> is_flag_set ACK_FLAG SYN_FLAG
   \<and> run_client [] 3 (Datagram [0, 0, 0, 0, 0, 2] # [])
       = data_transfer [] 3
           (initial_client\<lparr>sent := [[0, 0, 0, 0, 0, 1], [0, 0, 0, 0, 0, 2]]\<rparr>) []
   \<and> fin_wait [0, 0, 0, 0, 0, 4] initial_client (Datagram [0, 0, 0, 0, 0, 2] # [])
       = Closed initial_client"
  by (rule is_flag_set_any_bit
      [where flags = 2 and flag = 3 and fdata = "[]" and window_size = 3 and es = "[]"
         and fin_packet = "[0, 0, 0, 0, 0, 4]" and c = initial_client])

section \<open>C9: a payload of at most one segment\<close>

lemma total_packets_short: "length fdata \<le> 994 \<Longrightarrow> total_packets fdata \<le> 1"
  by (simp add: total_packets_def MAX_DATA_SIZE_def)

lemma final_simps:
  "final (Waiting c) = c" "final (Failed c) = c" "final (Crashed e c) = c" "final (Closed c) = c"
  by (simp_all add: final_def)

lemma fin_wait_sent:
  "set (sent (final (fin_wait fin_packet c es))) \<subseteq> insert fin_packet (set (sent c))"
proof (induction es arbitrary: c)
  case Nil
  then show ?case by (simp add: final_simps subset_insertI)
next
  case (Cons ev es)
  show ?case
  proof (cases ev)
    case Timeout
    then show ?thesis
      using Cons [of "send_packet fin_packet c"] by (auto simp: send_packet_def)
  next
    case (Datagram packet)
    then show ?thesis
      using Cons [of c]
      by (auto simp: final_simps split: sum.splits)
  qed
qed

lemma teardown_sent:
  "set (sent (final (teardown c es))) \<subseteq> insert [0, 0, 0, 0, 0, 4] (set (sent c))"
  using fin_wait_sent [of "[0, 0, 0, 0, 0, 4]" "send_packet [0, 0, 0, 0, 0, 4] c" es]
  by (auto simp: teardown_def control_packets send_packet_def)

lemma data_transfer_skip:
  "total_packets fdata \<le> base c \<Longrightarrow> data_transfer fdata window_size c es = teardown c es"
  by (subst data_transfer.simps) simp

text \<open>
  Claim C9. For a payload of at most 994 bytes, \<^verbatim>\<open>total_packets\<close> is at most 1, so with
  \<^verbatim>\<open>base = 1\<close> the guard \<^verbatim>\<open>base < total_packets\<close> is false at once: the data transfer
  is the teardown, whatever arrives, and every datagram the client ever sends is the SYN,
  the ACK of the handshake, or a FIN; no data packet is among them.
\<close>

theorem short_payload_no_data:
  assumes "length fdata \<le> 994"
  shows "total_packets fdata \<le> 1
    \<and> (base c = 1 \<longrightarrow> data_transfer fdata window_size c es = teardown c es)
    \<and> set (sent (final (run_client fdata window_size es)))
        \<subseteq> {[0, 0, 0, 0, 0, 1], [0, 0, 0, 0, 0, 2], [0, 0, 0, 0, 0, 4]}"
proof -
  have t: "total_packets fdata \<le> 1"
    using assms by (rule total_packets_short)
  have skip: "data_transfer fdata window_size c' es' = teardown c' es'" if "base c' = 1" for c' es'
    using t that by (simp add: data_transfer_skip)
  have s: "set (sent (final (run_client fdata window_size es)))
        \<subseteq> {[0, 0, 0, 0, 0, 1], [0, 0, 0, 0, 0, 2], [0, 0, 0, 0, 0, 4]}"
  proof (cases es)
    case Nil
    then show ?thesis
      by (simp add: run_client_def control_packets final_simps send_packet_def initial_client_def)
  next
    case (Cons ev es')
    show ?thesis
    proof (cases ev)
      case Timeout
      then show ?thesis using Cons
        by (simp add: run_client_def control_packets final_simps send_packet_def initial_client_def)
    next
      case (Datagram packet)
      let ?c = "send_packet [0, 0, 0, 0, 0, 1] initial_client"
      let ?c2 = "send_packet [0, 0, 0, 0, 0, 2] ?c"
      have b: "base ?c = 1" "base ?c2 = 1"
        by (simp_all add: send_packet_def initial_client_def)
      have s1: "set (sent ?c) \<subseteq> {[0, 0, 0, 0, 0, 1], [0, 0, 0, 0, 0, 2]}"
        and s2: "set (sent ?c2) \<subseteq> {[0, 0, 0, 0, 0, 1], [0, 0, 0, 0, 0, 2]}"
        by (simp_all add: send_packet_def initial_client_def)
      have d1: "set (sent (final (data_transfer fdata window_size ?c es')))
           \<subseteq> {[0, 0, 0, 0, 0, 1], [0, 0, 0, 0, 0, 2], [0, 0, 0, 0, 0, 4]}"
        unfolding skip [OF b(1)] using teardown_sent [of ?c es'] s1 by blast
      have d2: "set (sent (final (data_transfer fdata window_size ?c2 es')))
           \<subseteq> {[0, 0, 0, 0, 0, 1], [0, 0, 0, 0, 0, 2], [0, 0, 0, 0, 0, 4]}"
        unfolding skip [OF b(2)] using teardown_sent [of ?c2 es'] s2 by blast
      have s3: "set (sent ?c) \<subseteq> {[0, 0, 0, 0, 0, 1], [0, 0, 0, 0, 0, 2], [0, 0, 0, 0, 0, 4]}"
        by (simp add: send_packet_def initial_client_def)
      show ?thesis
        unfolding Cons Datagram run_client_def control_packets
        using d1 d2 s3
        by (simp del: data_transfer.simps add: Let_def final_simps split: sum.splits prod.splits)
    qed
  qed
  show ?thesis
    using t skip s by blast
qed

theorem short_payload_no_data_witness:
  "length [5 :: byte] \<le> 994
   \<and> total_packets [5] \<le> 1
   \<and> data_transfer [5] 3 initial_client [Datagram [0, 0, 0, 0, 0, 6]]
       = teardown initial_client [Datagram [0, 0, 0, 0, 0, 6]]
   \<and> set (sent (final (run_client [5] 3 [Datagram [0, 0, 0, 0, 0, 3], Datagram [0, 0, 0, 0, 0, 6]])))
        \<subseteq> {[0, 0, 0, 0, 0, 1], [0, 0, 0, 0, 0, 2], [0, 0, 0, 0, 0, 4]}"
proof -
  have h: "length [5 :: byte] \<le> 994" by simp
  have b: "base initial_client = 1" by (simp add: initial_client_def)
  show ?thesis
    using h b
      short_payload_no_data [OF h, of initial_client 3 "[Datagram [0, 0, 0, 0, 0, 6]]"]
      short_payload_no_data [OF h, of initial_client 3
        "[Datagram [0, 0, 0, 0, 0, 3], Datagram [0, 0, 0, 0, 0, 6]]"]
    by blast
qed

section \<open>C5: the receiver and data datagrams\<close>

lemma unpack_H_fits: "fits_H (unpack_H hi lo)"
proof -
  have "0 \<le> uint hi" "uint hi < 256" "0 \<le> uint lo" "uint lo < 256"
    using uint_lt2p [of hi] uint_lt2p [of lo] by simp_all
  then show ?thesis
    by (simp add: fits_H_def unpack_H_def)
qed

lemma parse_packet_fits:
  assumes "parse_packet p = Inr (s, a, f, d)"
  shows "fits_H s \<and> fits_H a \<and> fits_H f"
  using assms unfolding parse_packet_def
  by (auto split: list.splits simp: unpack_H_fits)

text \<open>
  Claim C5, amended. A data datagram is one with none of SYN, ACK, FIN set. If its
  sequence number is the pending \<^verbatim>\<open>discard_seq\<close>, the receiver only clears
  \<^verbatim>\<open>discard_seq\<close>: no ACK, nothing appended, \<^verbatim>\<open>expected_seq\<close> as before, even when the
  number is the expected one. Otherwise the datagram is accepted exactly when its
  sequence number is \<^verbatim>\<open>expected_seq\<close>: the payload is appended, \<^verbatim>\<open>expected_seq\<close> grows by
  one, and the reply is an ACK packet with sequence field 0 and \<^verbatim>\<open>ack_num\<close> the sequence
  number; with any other number the state is unchanged and nothing is sent.
\<close>

theorem server_receive_data:
  assumes "parse_packet packet = Inr (seq, ack_num, flags, data)"
    and "\<not> is_flag_set flags SYN_FLAG"
    and "\<not> is_flag_set flags ACK_FLAG"
    and "\<not> is_flag_set flags FIN_FLAG"
  shows "server_receive s packet =
           (if discard_seq s = Some seq then Continue (s\<lparr>discard_seq := None\<rparr>)
            else if seq = expected_seq s then
              Continue (s\<lparr>file_data := file_data s @ data,
                          expected_seq := expected_seq s + 1,
                          replies := replies s @ [pack_H 0 @ pack_H seq @ pack_H ACK_FLAG]\<rparr>)
            else Continue s)
         \<and> parse_packet (pack_H 0 @ pack_H seq @ pack_H ACK_FLAG) = Inr (0, seq, ACK_FLAG, [])"
proof -
  have f: "fits_H seq"
    using parse_packet_fits [OF assms(1)] by simp
  have f0: "fits_H 0" "fits_H ACK_FLAG"
    by (simp_all add: fits_H_def flag_values)
  have ack: "create_packet 0 seq ACK_FLAG [] = Inr (pack_H 0 @ pack_H seq @ pack_H ACK_FLAG)"
    using create_packet_fits [OF f0(1) f f0(2), of "[]"] by simp
  have dec: "parse_packet (pack_H 0 @ pack_H seq @ pack_H ACK_FLAG) = Inr (0, seq, ACK_FLAG, [])"
    using parse_create_packet [OF f0(1) f f0(2), of "[]"] by simp
  have step: "server_receive s packet =
           (if discard_seq s = Some seq then Continue (s\<lparr>discard_seq := None\<rparr>)
            else if seq = expected_seq s then
              Continue (s\<lparr>file_data := file_data s @ data,
                          expected_seq := expected_seq s + 1,
                          replies := replies s @ [pack_H 0 @ pack_H seq @ pack_H ACK_FLAG]\<rparr>)
            else Continue s)"
    using assms ack by (auto simp: server_receive_def reply_def)
  show ?thesis
    using step dec by simp
qed

theorem server_receive_data_witness:
  "server_receive \<lparr>file_data = [], expected_seq = 1, discard_seq = None, replies = []\<rparr>
       [0, 1, 0, 0, 0, 0, 7]
     = Continue \<lparr>file_data = [7], expected_seq = 2, discard_seq = None,
                  replies = [[0, 0, 0, 1, 0, 2]]\<rparr>
   \<and> parse_packet [0, 0, 0, 1, 0, 2] = Inr (0, 1, 2, [])"
proof -
  have p: "parse_packet [0, 1, 0, 0, 0, 0, 7] = Inr (1, 0, 0, [7])"
    by (simp add: parse_packet_def HEADER_SIZE_def unpack_H_def)
  have n: "\<not> is_flag_set 0 SYN_FLAG" "\<not> is_flag_set 0 ACK_FLAG" "\<not> is_flag_set 0 FIN_FLAG"
    by (simp_all add: is_flag_set_def)
  show ?thesis
    using server_receive_data [OF p n,
        of "\<lparr>file_data = [], expected_seq = 1, discard_seq = None, replies = []\<rparr>"]
    by (simp add: pack_H_def flag_values)
qed

text \<open>
  With \<^verbatim>\<open>discard_seq = 1\<close> a data datagram with the expected sequence number 1 is not
  accepted, and with \<^verbatim>\<open>discard_seq = 2\<close> a datagram with the unexpected number 2 changes
  the receiver state.
\<close>

theorem discard_overrides_expected:
  "server_receive \<lparr>file_data = [], expected_seq = 1, discard_seq = Some 1, replies = []\<rparr>
       [0, 1, 0, 0, 0, 0, 7]
     = Continue \<lparr>file_data = [], expected_seq = 1, discard_seq = None, replies = []\<rparr>
   \<and> server_receive \<lparr>file_data = [], expected_seq = 1, discard_seq = Some 2, replies = []\<rparr>
       [0, 2, 0, 0, 0, 0, 7]
     = Continue \<lparr>file_data = [], expected_seq = 1, discard_seq = None, replies = []\<rparr>"
  by (simp add: server_receive_def parse_packet_def HEADER_SIZE_def unpack_H_def
      is_flag_set_def)

section \<open>C8: datagrams shorter than a header\<close>

text \<open>
  Claim C8, amended. Parsing fewer than 6 bytes raises \<^verbatim>\<open>struct.error\<close>, and no receive
  loop catches it: the server loop, the handshake, the acknowledgement loop and the
  teardown of the client each end with that error on such a datagram, the state as it
  was when the datagram arrived.
\<close>

theorem short_datagram_raises:
  assumes "length packet < 6"
  shows "parse_packet packet = Inl StructError
    \<and> serve s (Datagram packet # es) = Aborted StructError s
    \<and> run_client fdata window_size (Datagram packet # es)
        = Crashed StructError (initial_client\<lparr>sent := [[0, 0, 0, 0, 0, 1]]\<rparr>)
    \<and> listen_acks fdata window_size c (Datagram packet # es) = Interrupted StructError c
    \<and> fin_wait fin_packet c (Datagram packet # es) = Crashed StructError c"
proof -
  have p: "parse_packet packet = Inl StructError"
    using assms by (rule parse_packet_short)
  show ?thesis
    by (simp add: p server_receive_def receive_ack_def run_client_def control_packets
        send_packet_def initial_client_def)
qed

theorem short_datagram_raises_witness:
  "parse_packet [0, 1, 0, 0, 0] = Inl StructError
    \<and> serve \<lparr>file_data = [], expected_seq = 1, discard_seq = None, replies = []\<rparr>
        (Datagram [0, 1, 0, 0, 0] # [])
       = Aborted StructError \<lparr>file_data = [], expected_seq = 1, discard_seq = None, replies = []\<rparr>
    \<and> run_client [] 3 (Datagram [0, 1, 0, 0, 0] # [])
        = Crashed StructError (initial_client\<lparr>sent := [[0, 0, 0, 0, 0, 1]]\<rparr>)
    \<and> listen_acks [] 3 initial_client (Datagram [0, 1, 0, 0, 0] # []) = Interrupted StructError initial_client
    \<and> fin_wait [0, 0, 0, 0, 0, 4] initial_client (Datagram [0, 1, 0, 0, 0] # []) = Crashed StructError initial_client"
proof -
  have h: "length [0, 1, 0, 0, 0 :: byte] < 6" by simp
  show ?thesis
    by (rule short_datagram_raises [OF h])
qed

text \<open>
  The server given a 5-byte datagram and then a valid first data packet stops at the
  former; without the short datagram it accepts the data packet and keeps serving.
\<close>

theorem short_datagram_stops_server:
  "run_server None [Datagram [0, 1, 0, 0, 0], Datagram [0, 1, 0, 0, 0, 0, 7]]
     = Aborted StructError \<lparr>file_data = [], expected_seq = 1, discard_seq = None, replies = []\<rparr>
   \<and> run_server None [Datagram [0, 1, 0, 0, 0, 0, 7]]
     = Serving \<lparr>file_data = [7], expected_seq = 2, discard_seq = None,
                 replies = [[0, 0, 0, 1, 0, 2]]\<rparr>"
  by (simp add: run_server_def server_receive_def parse_packet_def HEADER_SIZE_def
      unpack_H_def is_flag_set_def flag_values create_packet_def fits_H_def pack_H_def
      reply_def)

section \<open>C6: sliding the window on an acknowledgement\<close>

lemma slide_window_ok:
  "base c \<le> ack_num + 1 \<Longrightarrow> {base c..ack_num} \<subseteq> window c \<Longrightarrow>
   slide_window ack_num c
     = Ok (c\<lparr>window := window c - {base c..ack_num}, base := ack_num + 1\<rparr>)"
proof (induction ack_num c rule: slide_window.induct)
  case (1 ack_num c)
  show ?case
  proof (cases "base c \<le> ack_num")
    case False
    with "1.prems" have "base c = ack_num + 1" by simp
    then show ?thesis by (subst slide_window.simps) simp
  next
    case True
    let ?c = "c\<lparr>window := window c - {base c}, base := base c + 1\<rparr>"
    have mem: "base c \<in> window c"
      using True "1.prems"(2) by auto
    have sub: "{base ?c..ack_num} \<subseteq> window ?c"
      using "1.prems"(2) by auto
    have le: "base ?c \<le> ack_num + 1"
      using True by simp
    have w: "window ?c - {base ?c..ack_num} = window c - {base c..ack_num}"
      using True by auto
    have "slide_window ack_num c = slide_window ack_num ?c"
      using True mem by (subst slide_window.simps) simp
    also have "\<dots> = Ok (?c\<lparr>window := window ?c - {base ?c..ack_num}, base := ack_num + 1\<rparr>)"
      using "1.IH" [OF True mem le sub] .
    also have "\<dots> = Ok (c\<lparr>window := window c - {base c..ack_num}, base := ack_num + 1\<rparr>)"
      unfolding w by simp
    finally show ?thesis .
  qed
qed

lemma parse_ack2: "parse_packet [0, 0, 0, 2, 0, 2] = Inr (0, 2, 2, [])"
  by (simp add: parse_packet_def HEADER_SIZE_def unpack_H_def)

lemma parse_ack5: "parse_packet [0, 0, 0, 5, 0, 2] = Inr (0, 5, 2, [])"
  by (simp add: parse_packet_def HEADER_SIZE_def unpack_H_def)

text \<open>
  Claim C6, amended. When the sender receives a packet with the ACK flag set and
  \<^verbatim>\<open>ack_num >= base\<close>, and every sequence number from \<^verbatim>\<open>base\<close> through \<^verbatim>\<open>ack_num\<close> is in
  the window, these numbers are removed from the window, \<^verbatim>\<open>base\<close> becomes
  \<^verbatim>\<open>ack_num + 1\<close>, and \<^verbatim>\<open>send_window()\<close> runs at once from that state. A packet with
  \<^verbatim>\<open>ack_num < base\<close> changes nothing and sends nothing.
\<close>

theorem receive_ack_slides:
  assumes "parse_packet packet = Inr (seq, ack_num, flags, data)"
  shows "(is_flag_set flags ACK_FLAG \<and> base c \<le> ack_num \<and> {base c..ack_num} \<subseteq> window c \<longrightarrow>
            receive_ack fdata window_size c packet
              = send_window fdata window_size
                  (c\<lparr>window := window c - {base c..ack_num}, base := ack_num + 1\<rparr>))
       \<and> (ack_num < base c \<longrightarrow> receive_ack fdata window_size c packet = Ok c)"
proof -
  have a: "receive_ack fdata window_size c packet
              = send_window fdata window_size
                  (c\<lparr>window := window c - {base c..ack_num}, base := ack_num + 1\<rparr>)"
    if "is_flag_set flags ACK_FLAG" "base c \<le> ack_num" "{base c..ack_num} \<subseteq> window c"
  proof -
    have "slide_window ack_num c
        = Ok (c\<lparr>window := window c - {base c..ack_num}, base := ack_num + 1\<rparr>)"
      using that by (intro slide_window_ok) simp_all
    then show ?thesis
      using that assms by (simp add: receive_ack_def)
  qed
  have b: "receive_ack fdata window_size c packet = Ok c" if "ack_num < base c"
    using that assms by (simp add: receive_ack_def)
  show ?thesis using a b by blast
qed

theorem receive_ack_slides_witness:
  "receive_ack [] 3 \<lparr>base = 1, next_seq = 3, window = {1, 2}, sent = []\<rparr> [0, 0, 0, 2, 0, 2]
     = Ok \<lparr>base = 3, next_seq = 3, window = {}, sent = []\<rparr>
   \<and> receive_ack [] 3 \<lparr>base = 3, next_seq = 3, window = {}, sent = []\<rparr> [0, 0, 0, 2, 0, 2]
     = Ok \<lparr>base = 3, next_seq = 3, window = {}, sent = []\<rparr>"
proof -
  have f: "is_flag_set 2 ACK_FLAG" by (simp add: is_flag_set_def flag_values)
  have t: "total_packets [] = 0" by (simp add: total_packets_def MAX_DATA_SIZE_def)
  have w: "{1, 2} - {1..2::int} = {}" by auto
  have sub: "{1..2::int} \<subseteq> {1, 2}" by auto
  have sw: "send_window [] 3 \<lparr>base = 3, next_seq = 3, window = {}, sent = []\<rparr>
      = Ok \<lparr>base = 3, next_seq = 3, window = {}, sent = []\<rparr>"
    by (subst send_window.simps) (simp add: t)
  show ?thesis
    using receive_ack_slides [OF parse_ack2, of "\<lparr>base = 1, next_seq = 3, window = {1, 2}, sent = []\<rparr>" "[]" 3]
      receive_ack_slides [OF parse_ack2, of "\<lparr>base = 3, next_seq = 3, window = {}, sent = []\<rparr>" "[]" 3]
    by (simp add: f w sub sw)
qed

text \<open>
  With the window \<open>{1, 2}\<close> and \<^verbatim>\<open>base = 1\<close>, an ACK for 5 removes 1 and 2 and then raises
  \<^verbatim>\<open>KeyError\<close> at 3: \<^verbatim>\<open>base\<close> is 3, not 6, and no send round follows.
\<close>

theorem ack_beyond_window_raises:
  "receive_ack [] 3 \<lparr>base = 1, next_seq = 3, window = {1, 2}, sent = []\<rparr> [0, 0, 0, 5, 0, 2]
     = Raised KeyError \<lparr>base = 3, next_seq = 3, window = {}, sent = []\<rparr>"
proof -
  have f: "is_flag_set 2 ACK_FLAG" by (simp add: is_flag_set_def flag_values)
  have s1: "slide_window 5 \<lparr>base = 1, next_seq = 3, window = {1, 2}, sent = []\<rparr>
     = slide_window 5 \<lparr>base = 2, next_seq = 3, window = {2}, sent = []\<rparr>"
    by (subst slide_window.simps) auto
  have s2: "slide_window 5 \<lparr>base = 2, next_seq = 3, window = {2}, sent = []\<rparr>
     = slide_window 5 \<lparr>base = 3, next_seq = 3, window = {}, sent = []\<rparr>"
    by (subst slide_window.simps) auto
  have s3: "slide_window 5 \<lparr>base = 3, next_seq = 3, window = {}, sent = []\<rparr>
     = Raised KeyError \<lparr>base = 3, next_seq = 3, window = {}, sent = []\<rparr>"
    by (subst slide_window.simps) auto
  show ?thesis
    by (simp add: receive_ack_def parse_ack5 f s1 s2 s3)
qed

section \<open>C2: what a retransmission resends\<close>

lemma retransmit_seqs_ok:
  "\<forall>seq \<in> set seqs. fits_H seq \<Longrightarrow>
   retransmit_seqs fdata seqs c
     = Ok (c\<lparr>sent := sent c @
            map (\<lambda>seq. pack_H seq @ pack_H 0 @ pack_H 0 @
                   py_slice fdata ((seq - 1) * MAX_DATA_SIZE) (seq * MAX_DATA_SIZE)) seqs\<rparr>)"
proof (induction seqs arbitrary: c)
  case Nil
  then show ?case by simp
next
  case (Cons seq seqs)
  have f0: "fits_H 0" by (simp add: fits_H_def)
  have f: "fits_H seq" using Cons.prems by simp
  have rest: "\<forall>seq \<in> set seqs. fits_H seq" using Cons.prems by simp
  show ?case
    by (simp add: create_packet_fits [OF f f0 f0] Cons.IH [OF rest] send_packet_def)
qed

lemma retransmit_packets_ok:
  assumes "0 \<le> base c" and "next_seq c - 2 \<le> 65535"
  shows "retransmit_packets fdata c
           = Ok (c\<lparr>sent := sent c @
                  map (\<lambda>seq. pack_H seq @ pack_H 0 @ pack_H 0 @
                         py_slice fdata ((seq - 1) * MAX_DATA_SIZE) (seq * MAX_DATA_SIZE))
                    [base c .. next_seq c - 2]\<rparr>)
         \<and> (\<forall>seq \<in> set [base c .. next_seq c - 2].
              parse_packet (pack_H seq @ pack_H 0 @ pack_H 0 @
                   py_slice fdata ((seq - 1) * MAX_DATA_SIZE) (seq * MAX_DATA_SIZE))
                = Inr (seq, 0, 0,
                    py_slice fdata ((seq - 1) * MAX_DATA_SIZE) (seq * MAX_DATA_SIZE)))"
proof -
  have fits: "\<forall>seq \<in> set [base c .. next_seq c - 2]. fits_H seq"
    using assms by (auto simp: fits_H_def)
  have f0: "fits_H 0" by (simp add: fits_H_def)
  have r: "retransmit_packets fdata c
           = Ok (c\<lparr>sent := sent c @
                  map (\<lambda>seq. pack_H seq @ pack_H 0 @ pack_H 0 @
                         py_slice fdata ((seq - 1) * MAX_DATA_SIZE) (seq * MAX_DATA_SIZE))
                    [base c .. next_seq c - 2]\<rparr>)"
    unfolding retransmit_packets_def using fits by (rule retransmit_seqs_ok)
  have p: "parse_packet (pack_H seq @ pack_H 0 @ pack_H 0 @ d) = Inr (seq, 0, 0, d)"
    if "seq \<in> set [base c .. next_seq c - 2]" for seq d
    using fits that f0 by (intro parse_create_packet) auto
  show ?thesis
    using r p by blast
qed

text \<open>
  Claim C2, amended. Whenever a round of the data transfer ends by timeout (in
  particular at once, with no acknowledgement and \<^verbatim>\<open>base\<close> unchanged), the sender resends
  the sequence numbers from \<^verbatim>\<open>base\<close> through \<^verbatim>\<open>next_seq - 2\<close> as they are at that moment,
  each once and in ascending order, each as a packet with that sequence number,
  \<^verbatim>\<open>ack_num\<close> 0, flags 0 and the payload \<^verbatim>\<open>file_data[(seq-1)*994 : seq*994]\<close>, and then
  starts the next round; \<^verbatim>\<open>next_seq - 1\<close> is not resent. (The sequence numbers are assumed
  to fit the 16-bit header field.)
\<close>

theorem timeout_resends_sent_range:
  assumes "base c < total_packets fdata"
    and "send_window fdata window_size c = Ok c1"
    and "listen_acks fdata window_size c1 es = TimedOut c2 es'"
    and "0 \<le> base c2" and "next_seq c2 - 2 \<le> 65535"
  shows "listen_acks fdata window_size c1 (Timeout # es') = TimedOut c1 es'
         \<and> data_transfer fdata window_size c es
           = data_transfer fdata window_size
               (c2\<lparr>sent := sent c2 @
                  map (\<lambda>seq. pack_H seq @ pack_H 0 @ pack_H 0 @
                         py_slice fdata ((seq - 1) * MAX_DATA_SIZE) (seq * MAX_DATA_SIZE))
                    [base c2 .. next_seq c2 - 2]\<rparr>) es'
         \<and> (\<forall>seq \<in> set [base c2 .. next_seq c2 - 2].
              parse_packet (pack_H seq @ pack_H 0 @ pack_H 0 @
                   py_slice fdata ((seq - 1) * MAX_DATA_SIZE) (seq * MAX_DATA_SIZE))
                = Inr (seq, 0, 0,
                    py_slice fdata ((seq - 1) * MAX_DATA_SIZE) (seq * MAX_DATA_SIZE)))"
proof -
  let ?resent = "map (\<lambda>seq. pack_H seq @ pack_H 0 @ pack_H 0 @
                         py_slice fdata ((seq - 1) * MAX_DATA_SIZE) (seq * MAX_DATA_SIZE))
                    [base c2 .. next_seq c2 - 2]"
  have fits: "\<forall>seq \<in> set [base c2 .. next_seq c2 - 2]. fits_H seq"
    using assms(4,5) by (auto simp: fits_H_def)
  have f0: "fits_H 0" by (simp add: fits_H_def)
  have r: "retransmit_packets fdata c2 = Ok (c2\<lparr>sent := sent c2 @ ?resent\<rparr>)"
    unfolding retransmit_packets_def using fits by (rule retransmit_seqs_ok)
  have d: "data_transfer fdata window_size c es
      = data_transfer fdata window_size (c2\<lparr>sent := sent c2 @ ?resent\<rparr>) es'"
    using assms(1,2,3) r by (subst data_transfer.simps) simp
  have p: "parse_packet (pack_H seq @ pack_H 0 @ pack_H 0 @ d) = Inr (seq, 0, 0, d)"
    if "seq \<in> set [base c2 .. next_seq c2 - 2]" for seq d
    using fits that f0 by (intro parse_create_packet) auto
  have t: "listen_acks fdata window_size c1 (Timeout # es') = TimedOut c1 es'"
    by simp
  show ?thesis
    using t d p by blast
qed

theorem timeout_resends_sent_range_witness:
  "data_transfer (replicate 994 0 @ [1]) 3
       \<lparr>base = 1, next_seq = 1, window = {},
          sent = [[0, 0, 0, 0, 0, 1], [0, 0, 0, 0, 0, 2]]\<rparr> [Timeout]
     = data_transfer (replicate 994 0 @ [1]) 3
         \<lparr>base = 1, next_seq = 3, window = {1, 2},
            sent = [[0, 0, 0, 0, 0, 1], [0, 0, 0, 0, 0, 2], [0, 1, 0, 0, 0, 0, 1],
                    [0, 1, 0, 0, 0, 0] @ replicate 994 0]\<rparr> []
   \<and> parse_packet ([0, 1, 0, 0, 0, 0] @ replicate 994 0) = Inr (1, 0, 0, replicate 994 0)"
proof -
  let ?F = "replicate 994 0 @ [1 :: byte]"
  let ?c = "\<lparr>base = 1, next_seq = 1, window = {},
          sent = [[0, 0, 0, 0, 0, 1], [0, 0, 0, 0, 0, 2 :: byte]]\<rparr>"
  let ?c1 = "\<lparr>base = 1, next_seq = 3, window = {1, 2},
          sent = [[0, 0, 0, 0, 0, 1], [0, 0, 0, 0, 0, 2], [0, 1, 0, 0, 0, 0, 1 :: byte]]\<rparr>"
  have h1: "base ?c < total_packets ?F"
    by (simp add: total_packets_def MAX_DATA_SIZE_def)
  have h2: "send_window ?F 3 ?c = Ok ?c1"
    by code_simp
  have h3: "listen_acks ?F 3 ?c1 [Timeout] = TimedOut ?c1 []"
    by simp
  have h4: "0 \<le> base ?c1" and h5: "next_seq ?c1 - 2 \<le> 65535"
    by simp_all
  have u: "[1 .. 3 - 2] = [1::int]"
    by (simp add: upto.simps)
  have sl: "py_slice ?F 0 MAX_DATA_SIZE = replicate 994 0"
    by (simp add: py_slice_def py_bound_def MAX_DATA_SIZE_def)
  show ?thesis
    using timeout_resends_sent_range [OF h1 h2 h3 h4 h5]
    by (simp add: u sl pack_H_def)
qed

text \<open>
  A payload of 995 bytes, window size 3, SYN-ACK and then a timeout: at the timeout
  \<^verbatim>\<open>base = 1\<close> and \<^verbatim>\<open>next_seq = 3\<close>, and one packet is resent, for sequence number 1
  only; it carries the first 994 bytes, while the first transmission of sequence
  number 1 carried the last byte.
\<close>

theorem retransmission_skips_last_and_changes_payload:
  "base (final (run_client (replicate 994 0 @ [1]) 3 [Datagram [0, 0, 0, 0, 0, 3], Timeout])) = 1
   \<and> next_seq (final (run_client (replicate 994 0 @ [1]) 3 [Datagram [0, 0, 0, 0, 0, 3], Timeout])) = 3
   \<and> sent (final (run_client (replicate 994 0 @ [1]) 3 [Datagram [0, 0, 0, 0, 0, 3], Timeout]))
      = [[0, 0, 0, 0, 0, 1], [0, 0, 0, 0, 0, 2], [0, 1, 0, 0, 0, 0, 1],
         [0, 1, 0, 0, 0, 0] @ replicate 994 0]"
  by code_simp

section \<open>C3: the window variables\<close>

lemma result_state_simps:
  "result_state (Ok c) = c" "result_state (Raised e c) = c"
  by (simp_all add: result_state_def)

lemma listened_state_simps:
  "listened_state (Listening c) = c" "listened_state (TimedOut c es) = c"
  "listened_state (Interrupted e c) = c"
  by (simp_all add: listened_state_def)

lemma insert_upper_int: "(b::int) \<le> n \<Longrightarrow> insert n {b..<n} = {b..<n + 1}"
  by auto

lemma remove_lower_int: "{b..<n} - {b} = {b + 1..<(n::int)}"
  by auto

lemma data_seq_created:
  assumes "create_packet seq 0 0 d = Inr p"
  shows "data_seq p = Some seq"
proof -
  have f: "fits_H seq" "fits_H 0"
    using assms by (simp_all add: create_packet_def split: if_splits)
  have "p = pack_H seq @ pack_H 0 @ pack_H 0 @ d"
    using assms create_packet_fits [OF f(1) f(2) f(2), of d] by simp
  then show ?thesis
    using parse_create_packet [OF f(1) f(2) f(2), of d] by (simp add: data_seq_def)
qed

lemma data_seq_control:
  "data_seq [0, 0, 0, 0, 0, 1] = None"
  "data_seq [0, 0, 0, 0, 0, 2] = None"
  "data_seq [0, 0, 0, 0, 0, 4] = None"
  by (simp_all add: data_seq_def parse_packet_def HEADER_SIZE_def unpack_H_def)

lemma data_seqs_send_packet:
  "set (data_seqs (send_packet p c)) = set (data_seqs c) \<union> set_option (data_seq p)"
  by (cases "data_seq p") (auto simp: data_seqs_def send_packet_def List.map_filter_def)

lemma send_packet_fields:
  "base (send_packet p c) = base c" "next_seq (send_packet p c) = next_seq c"
  "window (send_packet p c) = window c"
  by (simp_all add: send_packet_def)

lemma sender_inv_control:
  "data_seq p = None \<Longrightarrow> sender_inv w c \<Longrightarrow> sender_inv w (send_packet p c)"
  by (simp add: sender_inv_def data_seqs_send_packet send_packet_fields)

lemma sender_inv_resend:
  assumes "sender_inv w c" and "data_seq p = Some s" and "1 \<le> s" and "s < next_seq c - 1"
  shows "sender_inv w (send_packet p c)"
proof -
  have "insert s {1..<next_seq c - 1} = {1..<next_seq c - 1}"
    using assms(3,4) by auto
  then show ?thesis
    using assms(1,2) by (simp add: sender_inv_def data_seqs_send_packet send_packet_fields)
qed

lemma sender_inv_skip:
  assumes "sender_inv w c" and "next_seq c - 1 < 1"
  shows "sender_inv w (c\<lparr>window := insert (next_seq c) (window c), next_seq := next_seq c + 1\<rparr>)"
proof -
  from assms have n: "next_seq c = 1" "base c = 1"
    and w: "window c = {base c..<next_seq c}"
    and d: "set (data_seqs c) = {1..<next_seq c - 1}"
    by (simp_all add: sender_inv_def)
  have w': "insert (next_seq c) (window c) = {base c..<next_seq c + 1}"
    unfolding w using n by (intro insert_upper_int) simp
  have d': "set (data_seqs (c\<lparr>window := insert (next_seq c) (window c),
                                 next_seq := next_seq c + 1\<rparr>)) = {1..<next_seq c + 1 - 1}"
    using d n by (simp add: data_seqs_def)
  show ?thesis
    unfolding sender_inv_def using n w' d' by simp
qed

lemma sender_inv_send:
  assumes "sender_inv w c" and "2 \<le> next_seq c"
    and "next_seq c + 1 - base c \<le> max (w + 1) 2"
    and "data_seq p = Some (next_seq c - 1)"
  shows "sender_inv w ((send_packet p c)
           \<lparr>window := insert (next_seq c) (window c), next_seq := next_seq c + 1\<rparr>)"
proof -
  from assms(1) have b: "1 \<le> base c" "base c \<le> next_seq c"
    and w: "window c = {base c..<next_seq c}"
    and d: "set (data_seqs c) = {1..<next_seq c - 1}"
    by (simp_all add: sender_inv_def)
  have w': "insert (next_seq c) (window c) = {base c..<next_seq c + 1}"
    unfolding w using b(2) by (rule insert_upper_int)
  have "insert (next_seq c - 1) {1..<next_seq c - 1} = {1..<next_seq c - 1 + 1}"
    using assms(2) by (intro insert_upper_int) simp
  then have d': "set (data_seqs ((send_packet p c)
           \<lparr>window := insert (next_seq c) (window c), next_seq := next_seq c + 1\<rparr>))
        = {1..<next_seq c + 1 - 1}"
    using d assms(4) data_seqs_send_packet [of p c] by (simp add: data_seqs_def)
  show ?thesis
    unfolding sender_inv_def using b assms(3) w' d' by (simp add: send_packet_fields)
qed

lemma sender_inv_slide:
  assumes "sender_inv w c" and "base c \<in> window c"
  shows "sender_inv w (c\<lparr>window := window c - {base c}, base := base c + 1\<rparr>)"
proof -
  from assms(1) have b: "1 \<le> base c" "base c \<le> next_seq c"
    "next_seq c - base c \<le> max (w + 1) 2"
    and w: "window c = {base c..<next_seq c}"
    and d: "set (data_seqs c) = {1..<next_seq c - 1}"
    by (simp_all add: sender_inv_def)
  have lt: "base c < next_seq c"
    using assms(2) unfolding w by simp
  have w': "window c - {base c} = {base c + 1..<next_seq c}"
    unfolding w by (rule remove_lower_int)
  have d': "set (data_seqs (c\<lparr>window := window c - {base c}, base := base c + 1\<rparr>))
      = {1..<next_seq c - 1}"
    using d by (simp add: data_seqs_def)
  show ?thesis
    unfolding sender_inv_def using b lt w' d' by simp
qed

lemma send_window_inv:
  "sender_inv w c \<Longrightarrow> sender_inv w (result_state (send_window fdata w c))"
proof (induction fdata w c rule: send_window.induct)
  case (1 fdata w c)
  from "1.prems" have b: "1 \<le> base c" "base c \<le> next_seq c"
    "next_seq c - base c \<le> max (w + 1) 2"
    by (simp_all add: sender_inv_def)
  show ?case
  proof (cases "next_seq c \<le> base c + w \<and> next_seq c \<le> total_packets fdata")
    case False
    then have "send_window fdata w c = Ok c"
      by (subst send_window.simps) (simp only: if_False)
    then show ?thesis using "1.prems" by (simp add: result_state_simps)
  next
    case True
    define c1 where "c1 = (if next_seq c - 1 < 1
                   then c\<lparr>window := insert (next_seq c) (window c), next_seq := next_seq c + 1\<rparr>
                   else c)"
    define data where
      "data = py_slice fdata ((next_seq c1 - 1) * MAX_DATA_SIZE) (next_seq c1 * MAX_DATA_SIZE)"
    have inv1: "sender_inv w c1"
    proof (cases "next_seq c - 1 < 1")
      case True
      with "1.prems" show ?thesis unfolding c1_def
        by (simp add: sender_inv_skip)
    next
      case False
      then show ?thesis using "1.prems" by (simp add: c1_def)
    qed
    have step: "next_seq c1 + 1 - base c1 \<le> max (w + 1) 2" and two: "2 \<le> next_seq c1"
    proof -
      show "next_seq c1 + 1 - base c1 \<le> max (w + 1) 2"
      proof (cases "next_seq c - 1 < 1")
        case True
        then have "next_seq c1 = next_seq c + 1" "base c1 = base c" by (simp_all add: c1_def)
        then show ?thesis using True b by arith
      next
        case False
        then have "next_seq c1 = next_seq c" "base c1 = base c" by (simp_all add: c1_def)
        then show ?thesis using True by arith
      qed
      show "2 \<le> next_seq c1"
        using b by (simp add: c1_def)
    qed
    have unfold: "send_window fdata w c =
        (case create_packet (next_seq c1 - 1) 0 0 data of
           Inl e \<Rightarrow> Raised e c1
         | Inr packet \<Rightarrow>
             send_window fdata w
               ((send_packet packet c1)
                  \<lparr>window := insert (next_seq c1) (window c1), next_seq := next_seq c1 + 1\<rparr>))"
      unfolding c1_def data_def
      by (subst send_window.simps) (simp only: True simp_thms if_True Let_def)
    show ?thesis
    proof (cases "create_packet (next_seq c1 - 1) 0 0 data")
      case (Inl e)
      then show ?thesis using unfold inv1 by (simp add: result_state_simps)
    next
      case (Inr packet)
      let ?c2 = "(send_packet packet c1)
                  \<lparr>window := insert (next_seq c1) (window c1), next_seq := next_seq c1 + 1\<rparr>"
      have "data_seq packet = Some (next_seq c1 - 1)"
        using Inr by (rule data_seq_created)
      with inv1 two step have inv2: "sender_inv w ?c2"
        by (rule sender_inv_send)
      have "sender_inv w (result_state (send_window fdata w ?c2))"
        using "1.IH" [OF True c1_def data_def Inr inv2] .
      then show ?thesis using unfold Inr by simp
    qed
  qed
qed

lemma slide_window_inv:
  "sender_inv w c \<Longrightarrow> sender_inv w (result_state (slide_window ack_num c))"
proof (induction ack_num c rule: slide_window.induct)
  case (1 ack_num c)
  show ?case
  proof (cases "base c \<le> ack_num")
    case False
    then have "slide_window ack_num c = Ok c"
      by (subst slide_window.simps) (simp only: if_False)
    then show ?thesis using "1.prems" by (simp add: result_state_simps)
  next
    case True
    show ?thesis
    proof (cases "base c \<in> window c")
      case False
      then have "slide_window ack_num c = Raised KeyError c"
        by (subst slide_window.simps) (simp only: True if_True if_False)
      then show ?thesis using "1.prems" by (simp add: result_state_simps)
    next
      case mem: True
      let ?c = "c\<lparr>window := window c - {base c}, base := base c + 1\<rparr>"
      have inv: "sender_inv w ?c"
        using "1.prems" mem by (rule sender_inv_slide)
      have "slide_window ack_num c = slide_window ack_num ?c"
        by (subst slide_window.simps) (simp only: True mem if_True)
      then show ?thesis
        using "1.IH" [OF True mem inv] by simp
    qed
  qed
qed

lemma retransmit_seqs_inv:
  "sender_inv w c \<Longrightarrow> \<forall>s \<in> set seqs. 1 \<le> s \<and> s < next_seq c - 1 \<Longrightarrow>
   sender_inv w (result_state (retransmit_seqs fdata seqs c))"
proof (induction seqs arbitrary: c)
  case Nil
  then show ?case by (simp add: result_state_simps)
next
  case (Cons seq seqs)
  show ?case
  proof (cases "create_packet seq 0 0
      (py_slice fdata ((seq - 1) * MAX_DATA_SIZE) (seq * MAX_DATA_SIZE))")
    case (Inl e)
    then show ?thesis using Cons.prems by (simp add: result_state_simps)
  next
    case (Inr packet)
    have ds: "data_seq packet = Some seq"
      using Inr by (rule data_seq_created)
    have r: "1 \<le> seq" "seq < next_seq c - 1"
      using Cons.prems(2) by simp_all
    have inv: "sender_inv w (send_packet packet c)"
      using Cons.prems(1) ds r by (rule sender_inv_resend)
    have rest: "\<forall>s \<in> set seqs. 1 \<le> s \<and> s < next_seq (send_packet packet c) - 1"
      using Cons.prems(2) by (simp add: send_packet_fields)
    show ?thesis
      using Inr Cons.IH [OF inv rest] by simp
  qed
qed

lemma retransmit_packets_inv:
  assumes "sender_inv w c"
  shows "sender_inv w (result_state (retransmit_packets fdata c))"
proof -
  have "1 \<le> base c" using assms by (simp add: sender_inv_def)
  then have "\<forall>s \<in> set [base c .. next_seq c - 2]. 1 \<le> s \<and> s < next_seq c - 1"
    by auto
  with assms show ?thesis
    unfolding retransmit_packets_def by (rule retransmit_seqs_inv)
qed

lemma receive_ack_inv:
  assumes "sender_inv w c"
  shows "sender_inv w (result_state (receive_ack fdata w c packet))"
proof (cases "parse_packet packet")
  case (Inl e)
  then show ?thesis using assms by (simp add: receive_ack_def result_state_simps)
next
  case (Inr t)
  obtain seq ack_num flags data where t: "t = (seq, ack_num, flags, data)"
    by (cases t) auto
  show ?thesis
  proof (cases "is_flag_set flags ACK_FLAG \<and> ack_num \<ge> base c")
    case False
    then have "receive_ack fdata w c packet = Ok c"
      using Inr t by (auto simp: receive_ack_def)
    then show ?thesis using assms by (simp add: result_state_simps)
  next
    case True
    have s: "sender_inv w (result_state (slide_window ack_num c))"
      using assms by (rule slide_window_inv)
    show ?thesis
    proof (cases "slide_window ack_num c")
      case (Ok c1)
      then have "receive_ack fdata w c packet = send_window fdata w c1"
        using Inr t True by (simp add: receive_ack_def)
      moreover have "sender_inv w c1" using s Ok by (simp add: result_state_simps)
      ultimately show ?thesis by (simp add: send_window_inv)
    next
      case (Raised e c1)
      then have "receive_ack fdata w c packet = Raised e c1"
        using Inr t True by (simp add: receive_ack_def)
      then show ?thesis using s Raised by (simp add: result_state_simps)
    qed
  qed
qed

lemma listen_acks_inv:
  "sender_inv w c \<Longrightarrow> sender_inv w (listened_state (listen_acks fdata w c es))"
proof (induction es arbitrary: c)
  case Nil
  then show ?case by (simp add: listened_state_simps)
next
  case (Cons ev es)
  show ?case
  proof (cases ev)
    case Timeout
    then show ?thesis using Cons.prems by (simp add: listened_state_simps)
  next
    case (Datagram packet)
    have r: "sender_inv w (result_state (receive_ack fdata w c packet))"
      using Cons.prems by (rule receive_ack_inv)
    show ?thesis
    proof (cases "receive_ack fdata w c packet")
      case (Ok c')
      then show ?thesis using Datagram r Cons.IH [of c'] by (simp add: result_state_simps)
    next
      case (Raised e c')
      then show ?thesis using Datagram r by (simp add: result_state_simps listened_state_simps)
    qed
  qed
qed

lemma fin_wait_inv:
  "data_seq fin_packet = None \<Longrightarrow> sender_inv w c \<Longrightarrow>
   sender_inv w (final (fin_wait fin_packet c es))"
proof (induction es arbitrary: c)
  case Nil
  then show ?case by (simp add: final_simps)
next
  case (Cons ev es)
  show ?case
  proof (cases ev)
    case Timeout
    have "sender_inv w (send_packet fin_packet c)"
      using Cons.prems by (rule sender_inv_control)
    then show ?thesis using Timeout Cons.IH [OF Cons.prems(1), of "send_packet fin_packet c"] by simp
  next
    case (Datagram packet)
    then show ?thesis
      using Cons.prems Cons.IH [OF Cons.prems(1), of c] by (auto simp: final_simps split: sum.splits)
  qed
qed

lemma teardown_inv:
  assumes "sender_inv w c"
  shows "sender_inv w (final (teardown c es))"
proof -
  have "sender_inv w (send_packet [0, 0, 0, 0, 0, 4] c)"
    using data_seq_control(3) assms by (rule sender_inv_control)
  then have "sender_inv w (final (fin_wait [0, 0, 0, 0, 0, 4] (send_packet [0, 0, 0, 0, 0, 4] c) es))"
    using data_seq_control(3) by (intro fin_wait_inv)
  then show ?thesis
    by (simp add: teardown_def control_packets)
qed

lemma data_transfer_inv:
  "sender_inv w c \<Longrightarrow> sender_inv w (final (data_transfer fdata w c es))"
proof (induction fdata w c es rule: data_transfer.induct)
  case (1 fdata w c es)
  show ?case
  proof (cases "base c < total_packets fdata")
    case False
    then have "data_transfer fdata w c es = teardown c es"
      by (subst data_transfer.simps) simp
    then show ?thesis using "1.prems" by (simp add: teardown_inv)
  next
    case True
    have i1: "sender_inv w (result_state (send_window fdata w c))"
      using "1.prems" by (rule send_window_inv)
    show ?thesis
    proof (cases "send_window fdata w c")
      case (Raised e c')
      then have "data_transfer fdata w c es = Crashed e c'"
        using True by (subst data_transfer.simps) simp
      then show ?thesis using i1 Raised by (simp add: final_simps result_state_simps)
    next
      case (Ok c1)
      have inv1: "sender_inv w c1" using i1 Ok by (simp add: result_state_simps)
      have i2: "sender_inv w (listened_state (listen_acks fdata w c1 es))"
        using inv1 by (rule listen_acks_inv)
      show ?thesis
      proof (cases "listen_acks fdata w c1 es")
        case (Listening c2)
        then have "data_transfer fdata w c es = Waiting c2"
          using True Ok by (subst data_transfer.simps) simp
        then show ?thesis using i2 Listening by (simp add: final_simps listened_state_simps)
      next
        case (Interrupted e c2)
        then have "data_transfer fdata w c es = Crashed e c2"
          using True Ok by (subst data_transfer.simps) simp
        then show ?thesis using i2 Interrupted by (simp add: final_simps listened_state_simps)
      next
        case (TimedOut c2 es')
        have inv2: "sender_inv w c2" using i2 TimedOut by (simp add: listened_state_simps)
        have i3: "sender_inv w (result_state (retransmit_packets fdata c2))"
          using inv2 by (rule retransmit_packets_inv)
        show ?thesis
        proof (cases "retransmit_packets fdata c2")
          case (Raised e c3)
          then have "data_transfer fdata w c es = Crashed e c3"
            using True Ok TimedOut by (subst data_transfer.simps) simp
          then show ?thesis using i3 Raised by (simp add: final_simps result_state_simps)
        next
          case (Ok c3)
          have inv3: "sender_inv w c3" using i3 Ok by (simp add: result_state_simps)
          have "data_transfer fdata w c es = data_transfer fdata w c3 es'"
            using True \<open>send_window fdata w c = Ok c1\<close> TimedOut Ok
            by (subst data_transfer.simps) simp
          then show ?thesis
            using "1.IH" [OF True \<open>send_window fdata w c = Ok c1\<close> TimedOut Ok inv3] by simp
        qed
      qed
    qed
  qed
qed

lemma run_client_inv: "sender_inv w (final (run_client fdata w es))"
proof -
  let ?c = "send_packet [0, 0, 0, 0, 0, 1] initial_client"
  let ?c2 = "send_packet [0, 0, 0, 0, 0, 2] ?c"
  have i0: "sender_inv w initial_client"
    by (simp add: sender_inv_def initial_client_def data_seqs_def List.map_filter_def)
  have i1: "sender_inv w ?c"
    by (rule sender_inv_control [OF data_seq_control(1) i0])
  have i2: "sender_inv w ?c2"
    by (rule sender_inv_control [OF data_seq_control(2) i1])
  show ?thesis
  proof (cases es)
    case Nil
    then show ?thesis using i1 by (simp add: run_client_def control_packets final_simps)
  next
    case (Cons ev es')
    show ?thesis
    proof (cases ev)
      case Timeout
      then show ?thesis using Cons i1 by (simp add: run_client_def control_packets final_simps)
    next
      case (Datagram packet)
      show ?thesis
        unfolding Cons Datagram run_client_def control_packets
        using i1 data_transfer_inv [OF i1, of fdata es'] data_transfer_inv [OF i2, of fdata es']
        by (simp add: Let_def final_simps split: sum.splits prod.splits)
    qed
  qed
qed

lemma in_flight_of_inv:
  assumes "sender_inv w c"
  shows "set (in_flight c) = {base c..<next_seq c - 1}"
    and "int (card (set (in_flight c))) \<le> max w 1"
proof -
  from assms have b: "1 \<le> base c" "base c \<le> next_seq c"
    "next_seq c - base c \<le> max (w + 1) 2"
    and d: "set (data_seqs c) = {1..<next_seq c - 1}"
    by (simp_all add: sender_inv_def)
  show s: "set (in_flight c) = {base c..<next_seq c - 1}"
    using b(1) by (auto simp: in_flight_def d)
  have "int (card {base c..<next_seq c - 1}) \<le> max w 1"
    using b by (simp add: max_def split: if_splits)
  then show "int (card (set (in_flight c))) \<le> max w 1"
    unfolding s .
qed

text \<open>
  Claim C3, amended. After any sequence of datagrams and timeouts, whether the sender
  is then waiting for the next datagram or has stopped, \<^verbatim>\<open>base <= next_seq\<close> holds, the
  window is exactly the set of numbers from \<^verbatim>\<open>base\<close> up to \<^verbatim>\<open>next_seq - 1\<close>, and
  \<^verbatim>\<open>next_seq - base\<close> is at most \<^verbatim>\<open>window_size + 1\<close> (at most 2 for a window size below
  1): the guard \<^verbatim>\<open>next_seq <= base + window_size\<close> lets \<^verbatim>\<open>next_seq\<close> run one past the
  window size. The sequence numbers transmitted and not yet acknowledged are exactly
  those from \<^verbatim>\<open>base\<close> up to \<^verbatim>\<open>next_seq - 2\<close>, so their number never exceeds the window
  size (at most 1 for a window size below 1).
\<close>

theorem window_bound:
  "base (final (run_client fdata window_size es)) \<le> next_seq (final (run_client fdata window_size es))
   \<and> next_seq (final (run_client fdata window_size es)) - base (final (run_client fdata window_size es))
        \<le> max (window_size + 1) 2
   \<and> window (final (run_client fdata window_size es))
       = {base (final (run_client fdata window_size es))
            ..< next_seq (final (run_client fdata window_size es))}
   \<and> set (in_flight (final (run_client fdata window_size es)))
       = {base (final (run_client fdata window_size es))
            ..< next_seq (final (run_client fdata window_size es)) - 1}
   \<and> int (card (set (in_flight (final (run_client fdata window_size es)))))
        \<le> max window_size 1"
  using run_client_inv [of window_size fdata es]
    in_flight_of_inv [OF run_client_inv [of window_size fdata es]]
  by (simp add: sender_inv_def)

theorem window_bound_witness:
  "base (final (run_client (replicate 994 0 @ [1]) 1 [Datagram [0, 0, 0, 0, 0, 3]])) = 1
   \<and> next_seq (final (run_client (replicate 994 0 @ [1]) 1 [Datagram [0, 0, 0, 0, 0, 3]])) = 3
   \<and> window (final (run_client (replicate 994 0 @ [1]) 1 [Datagram [0, 0, 0, 0, 0, 3]])) = {1..<3}
   \<and> in_flight (final (run_client (replicate 994 0 @ [1]) 1 [Datagram [0, 0, 0, 0, 0, 3]])) = [1]
   \<and> int (card (set (in_flight
        (final (run_client (replicate 994 0 @ [1]) 1 [Datagram [0, 0, 0, 0, 0, 3]]))))) \<le> max 1 1"
proof -
  have ev: "base (final (run_client (replicate 994 0 @ [1]) 1 [Datagram [0, 0, 0, 0, 0, 3]])) = 1
    \<and> next_seq (final (run_client (replicate 994 0 @ [1]) 1 [Datagram [0, 0, 0, 0, 0, 3]])) = 3
    \<and> in_flight (final (run_client (replicate 994 0 @ [1]) 1 [Datagram [0, 0, 0, 0, 0, 3]])) = [1]"
    by code_simp
  show ?thesis
    using window_bound [of "replicate 994 0 @ [1]" 1 "[Datagram [0, 0, 0, 0, 0, 3]]"] ev
    by simp
qed

text \<open>
  A payload of 995 bytes with window size 1: after the first send round
  \<^verbatim>\<open>next_seq - base\<close> is 2, above the window size.
\<close>

theorem window_exceeds_capacity:
  "next_seq (final (run_client (replicate 994 0 @ [1]) 1 [Datagram [0, 0, 0, 0, 0, 3]]))
     - base (final (run_client (replicate 994 0 @ [1]) 1 [Datagram [0, 0, 0, 0, 0, 3]])) = 2"
  by code_simp

section \<open>C1: a transfer without loss\<close>

text \<open>
  Claim C1, evaluated on the code. A payload of 995 bytes (994 zero bytes and a final 1)
  makes two segments. With window size 3, no fault injection, and every datagram
  delivered in order, the client sends SYN, ACK, one data packet and FIN, and the server
  answers with SYN-ACK, the ACK for 1 and FIN-ACK, which are exactly the datagrams the
  client receives. The data packet with sequence number 1 carries the second chunk (the
  last byte), no packet carries the first chunk, and the server ends with the one byte
  \<open>[1]\<close> instead of the 995 bytes of the payload.
\<close>

theorem lossless_transfer_drops_first_chunk:
  "total_packets (replicate 994 0 @ [1]) = 2
   \<and> run_client (replicate 994 0 @ [1]) 3
        [Datagram [0, 0, 0, 0, 0, 3], Datagram [0, 0, 0, 1, 0, 2], Timeout,
         Datagram [0, 0, 0, 0, 0, 6]]
      = Closed \<lparr>base = 2, next_seq = 3, window = {2},
                 sent = [[0, 0, 0, 0, 0, 1], [0, 0, 0, 0, 0, 2], [0, 1, 0, 0, 0, 0, 1],
                         [0, 0, 0, 0, 0, 4]]\<rparr>
   \<and> run_server None
        [Datagram [0, 0, 0, 0, 0, 1], Datagram [0, 0, 0, 0, 0, 2],
         Datagram [0, 1, 0, 0, 0, 0, 1], Datagram [0, 0, 0, 0, 0, 4]]
      = Finished \<lparr>file_data = [1], expected_seq = 2, discard_seq = None,
                   replies = [[0, 0, 0, 0, 0, 3], [0, 0, 0, 1, 0, 2], [0, 0, 0, 0, 0, 6]]\<rparr>"
  by code_simp

section \<open>C4: leaving the data transfer loop\<close>

text \<open>
  Claim C4, evaluated on the code. With the same payload of two segments, the ACK for
  sequence number 1 makes \<^verbatim>\<open>base = 2 = total_packets\<close>, and after the timeout that ends
  the round the loop is left and FIN is sent: sequence number 1 is the only one ever
  sent or acknowledged, and nothing was sent or acknowledged for sequence number 2.
\<close>

theorem transfer_loop_exits_before_last_segment:
  "total_packets (replicate 994 0 @ [1]) = 2
   \<and> base (final (run_client (replicate 994 0 @ [1]) 3
        [Datagram [0, 0, 0, 0, 0, 3], Datagram [0, 0, 0, 1, 0, 2], Timeout])) = 2
   \<and> sent (final (run_client (replicate 994 0 @ [1]) 3
        [Datagram [0, 0, 0, 0, 0, 3], Datagram [0, 0, 0, 1, 0, 2], Timeout]))
      = [[0, 0, 0, 0, 0, 1], [0, 0, 0, 0, 0, 2], [0, 1, 0, 0, 0, 0, 1], [0, 0, 0, 0, 0, 4]]"
  by code_simp

end
